theory Spec2Isabelle
  imports Main "HOL-Library.Multiset" "HOL-Library.AList"
begin

section \<open>Python values: exceptions, outcomes, binary64 arithmetic\<close>

text \<open>
  The exceptions the construction code can raise. The library raises \<open>RuntimeError\<close> with a
  message for its own failures; the other constructors are exceptions of the Python runtime.
\<close>

datatype error =
    ZeroDivisionError
  | OverflowError
  | ValueError
  | IndexError
  | KeyError
  | AttributeError
  | RuntimeError string

definition InvalidConstruction :: error where
  "InvalidConstruction = RuntimeError ''Invalid construction method''"

definition InvalidProtograph :: error where
  "InvalidProtograph = RuntimeError ''Invalid protograph value for given lift factor''"

definition InvalidArguments :: error where
  "InvalidArguments = RuntimeError ''invalid input provided''"

definition InvalidStructure :: error where
  "InvalidStructure = RuntimeError ''invalid structure''"

text \<open>
  A call either returns, raises, or is still drawing random numbers when the supply of draws
  ends (\<open>Pending\<close>): the rejection loops of the source have no iteration bound, and a run
  that never leaves such a loop is \<open>Pending\<close> on every finite supply.
\<close>

datatype 'a outcome = Pending | Raise error | Return 'a

fun and_then :: "'a outcome \<Rightarrow> ('a \<Rightarrow> 'b outcome) \<Rightarrow> 'b outcome" where
  "and_then Pending f = Pending"
| "and_then (Raise e) f = Raise e"
| "and_then (Return x) f = f x"

subsection \<open>Binary64 floats\<close>

text \<open>
  Python's \<open>/\<close> on integers is true division: the quotient correctly rounded to binary64
  (round to nearest, ties to even). Only non-negative values occur here. \<open>Finite m e\<close> is the
  float \<open>m * 2 ^ e\<close>.
\<close>

datatype pyfloat = Finite nat int | Infinity

fun bitlen :: "nat \<Rightarrow> nat" where
  "bitlen n = (if n = 0 then 0 else Suc (bitlen (n div 2)))"

declare bitlen.simps [simp del]

definition floor_log2_quot :: "nat \<Rightarrow> nat \<Rightarrow> int" where
  \<comment> \<open>the integer part of the binary logarithm of \<open>a / b\<close>, for positive \<open>a\<close> and \<open>b\<close>\<close>
  "floor_log2_quot a b =
     (let k = int (bitlen a) - int (bitlen b)
      in if b * 2 ^ nat k \<le> a * 2 ^ nat (- k) then k else k - 1)"

definition rne :: "nat \<Rightarrow> nat \<Rightarrow> nat" where
  \<comment> \<open>\<open>x / y\<close> rounded to the nearest integer, ties to the even one\<close>
  "rne x y =
     (let q = x div y; t = 2 * (x mod y)
      in if t < y then q else if y < t then q + 1 else if even q then q else q + 1)"

definition round_binary64 :: "nat \<Rightarrow> nat \<Rightarrow> pyfloat" where
  \<comment> \<open>\<open>a / b\<close> (\<open>b > 0\<close>) rounded to binary64: 53 significant bits, least exponent \<open>-1074\<close>\<close>
  "round_binary64 a b =
     (if a = 0 then Finite 0 0
      else let e = max (floor_log2_quot a b - 52) (- 1074);
               m = rne (a * 2 ^ nat (- e)) (b * 2 ^ nat e)
           in if 2 ^ 1024 * 2 ^ nat (- e) \<le> m * 2 ^ nat e then Infinity else Finite m e)"

definition round_scaled :: "nat \<Rightarrow> int \<Rightarrow> pyfloat" where
  \<comment> \<open>\<open>M * 2 ^ E\<close> rounded to binary64\<close>
  "round_scaled M E =
     (if 0 \<le> E then round_binary64 (M * 2 ^ nat E) 1 else round_binary64 M (2 ^ nat (- E)))"

definition py_truediv :: "nat \<Rightarrow> nat \<Rightarrow> pyfloat outcome" where
  \<comment> \<open>\<open>a / b\<close> on integers\<close>
  "py_truediv a b =
     (if b = 0 then Raise ZeroDivisionError
      else case round_binary64 a b of
             Infinity \<Rightarrow> Raise OverflowError
           | Finite m e \<Rightarrow> Return (Finite m e))"

definition py_float :: "nat \<Rightarrow> pyfloat outcome" where
  \<comment> \<open>the conversion of an integer operand in mixed arithmetic\<close>
  "py_float k =
     (case round_binary64 k 1 of
        Infinity \<Rightarrow> Raise OverflowError
      | Finite m e \<Rightarrow> Return (Finite m e))"

fun py_fmul :: "pyfloat \<Rightarrow> pyfloat \<Rightarrow> pyfloat" where
  "py_fmul (Finite m1 e1) (Finite m2 e2) = round_scaled (m1 * m2) (e1 + e2)"
| "py_fmul _ _ = Infinity"

fun py_fadd :: "pyfloat \<Rightarrow> pyfloat \<Rightarrow> pyfloat" where
  "py_fadd (Finite m1 e1) (Finite m2 e2) =
     (let e = min e1 e2
      in round_scaled (m1 * 2 ^ nat (e1 - e) + m2 * 2 ^ nat (e2 - e)) e)"
| "py_fadd _ _ = Infinity"

fun py_int :: "pyfloat \<Rightarrow> nat outcome" where
  \<comment> \<open>\<open>int(x)\<close>: truncation\<close>
  "py_int (Finite m e) = Return (if 0 \<le> e then m * 2 ^ nat e else m div 2 ^ nat (- e))"
| "py_int Infinity = Raise OverflowError"

definition exact_float :: "pyfloat \<Rightarrow> nat \<Rightarrow> bool" where
  \<comment> \<open>the float \<open>x\<close> is the integer \<open>q\<close>, held without rounding\<close>
  "exact_float x q \<longleftrightarrow> (\<exists>e. e \<le> 0 \<and> x = Finite (q * 2 ^ nat (- e)) e)"

definition int_truediv :: "nat \<Rightarrow> nat \<Rightarrow> nat outcome" where
  \<comment> \<open>\<open>int(a / b)\<close>\<close>
  "int_truediv a b = and_then (py_truediv a b) py_int"

definition py_mod :: "nat \<Rightarrow> nat \<Rightarrow> nat outcome" where
  \<comment> \<open>\<open>a % b\<close>\<close>
  "py_mod a b = (if b = 0 then Raise ZeroDivisionError else Return (a mod b))"

section \<open>The random source\<close>

text \<open>
  The process-wide generator is a tape of draws, consumed from the front; a draw \<open>x\<close> selects
  \<open>x mod m\<close> among \<open>m\<close> alternatives. A function that needs a draw from the empty tape is
  \<open>Pending\<close>.
\<close>

type_synonym tape = "nat list"

definition choice :: "nat \<Rightarrow> tape \<Rightarrow> (nat \<times> tape) outcome" where
  \<comment> \<open>\<open>random.choice(range(m))\<close>\<close>
  "choice m t =
     (if m = 0 then Raise IndexError
      else case t of [] \<Rightarrow> Pending | x # t' \<Rightarrow> Return (x mod m, t'))"

fun draw_until :: "(nat \<Rightarrow> bool) \<Rightarrow> nat \<Rightarrow> tape \<Rightarrow> (nat \<times> tape) outcome" where
  \<comment> \<open>\<open>x = random.choice(range(m)); while rejected(x): x = random.choice(range(m))\<close>\<close>
  "draw_until rejected m [] = (if m = 0 then Raise IndexError else Pending)"
| "draw_until rejected m (x # t) =
     (if m = 0 then Raise IndexError
      else if rejected (x mod m) then draw_until rejected m t
      else Return (x mod m, t))"

fun shuffle_from :: "nat \<Rightarrow> nat list \<Rightarrow> tape \<Rightarrow> (nat list \<times> tape) outcome" where
  \<comment> \<open>the loop of \<open>random.shuffle\<close>: \<open>for i in reversed(range(1, len(x))): j = randbelow(i + 1);
      x[i], x[j] = x[j], x[i]\<close>\<close>
  "shuffle_from 0 xs t = Return (xs, t)"
| "shuffle_from (Suc i) xs [] = Pending"
| "shuffle_from (Suc i) xs (x # t) =
     (let j = x mod (Suc (Suc i))
      in shuffle_from i (xs[Suc i := xs ! j, j := xs ! Suc i]) t)"

definition shuffle :: "nat list \<Rightarrow> tape \<Rightarrow> (nat list \<times> tape) outcome" where
  "shuffle xs t = shuffle_from (length xs - 1) xs t"

fun sample_pool :: "nat list \<Rightarrow> nat \<Rightarrow> tape \<Rightarrow> (nat list \<times> tape) outcome" where
  \<comment> \<open>the selection loop of \<open>random.sample\<close>: \<open>j = randbelow(n - i); result[i] = pool[j];
      pool[j] = pool[n - i - 1]\<close>\<close>
  "sample_pool pool 0 t = Return ([], t)"
| "sample_pool pool (Suc k) [] = Pending"
| "sample_pool pool (Suc k) (x # t) =
     (let j = x mod length pool
      in and_then (sample_pool (butlast (pool[j := last pool])) k t)
           (\<lambda>(res, t'). Return (pool ! j # res, t')))"

definition sample :: "nat list \<Rightarrow> nat \<Rightarrow> tape \<Rightarrow> (nat list \<times> tape) outcome" where
  \<comment> \<open>\<open>random.sample(population, k)\<close>\<close>
  "sample population k t =
     (if length population < k then Raise ValueError else sample_pool population k t)"


section \<open>Graphs\<close>

text \<open>
  The adjacency structure is a Python dictionary from check-node index to the list of
  variable-node indices: an association list in insertion order, read with \<open>map_of\<close> and
  written with \<open>AList.update\<close>.
\<close>

type_synonym graph = "(nat \<times> nat list) list"

record tanner =
  tanner_graph :: graph
  tg_width :: nat
  tg_height :: nat

definition empty_rows :: "nat \<Rightarrow> graph" where
  \<comment> \<open>\<open>for i in range(h): tanner_graph[i] = []\<close>\<close>
  "empty_rows h = map (\<lambda>i. (i, [])) [0..<h]"

fun for_each ::
  "('a \<Rightarrow> 's \<Rightarrow> tape \<Rightarrow> ('s \<times> tape) outcome) \<Rightarrow> 'a list \<Rightarrow> 's \<Rightarrow> tape \<Rightarrow> ('s \<times> tape) outcome" where
  \<comment> \<open>a \<open>for\<close> loop whose body updates the loop state and draws from the tape\<close>
  "for_each body [] s t = Return (s, t)"
| "for_each body (x # xs) s t = and_then (body x s t) (\<lambda>(s', t'). for_each body xs s' t')"

fun for_pure :: "('a \<Rightarrow> 's \<Rightarrow> 's outcome) \<Rightarrow> 'a list \<Rightarrow> 's \<Rightarrow> 's outcome" where
  \<comment> \<open>a \<open>for\<close> loop whose body draws nothing\<close>
  "for_pure body [] s = Return s"
| "for_pure body (x # xs) s = and_then (body x s) (for_pure body xs)"

definition py_index :: "'a list \<Rightarrow> nat \<Rightarrow> 'a outcome" where
  \<comment> \<open>\<open>xs[i]\<close>\<close>
  "py_index xs i = (if i < length xs then Return (xs ! i) else Raise IndexError)"

definition dict_get :: "(nat \<times> 'v) list \<Rightarrow> nat \<Rightarrow> 'v outcome" where
  \<comment> \<open>\<open>d[k]\<close>\<close>
  "dict_get d k = (case map_of d k of None \<Rightarrow> Raise KeyError | Some v \<Rightarrow> Return v)"

section \<open>RegularLDPC\<close>

subsection \<open>Row-regular and column-regular placement\<close>

record placement =
  p_graph :: graph
  available_indices :: "nat list"
  placed_entries :: nat

definition scan :: "nat list \<Rightarrow> nat list \<Rightarrow> nat" where
  \<comment> \<open>\<open>l = 0; while l < len(available_indices) and row.count(available_indices[l]) == 1: l += 1\<close>\<close>
  "scan row avail = length (takeWhile (\<lambda>x. count_list row x = 1) avail)"

definition list_pop :: "nat \<Rightarrow> 'a list \<Rightarrow> 'a list" where
  \<comment> \<open>the list after \<open>xs.pop(i)\<close>\<close>
  "list_pop i xs = take i xs @ drop (Suc i) xs"

definition place_entry :: "nat \<Rightarrow> nat \<Rightarrow> nat \<Rightarrow> placement \<Rightarrow> tape \<Rightarrow> (placement \<times> tape) outcome" where
  \<comment> \<open>the body of the inner loop, shared by populate-rows (\<open>bound = width\<close>) and
      populate-columns (\<open>bound = height\<close>); \<open>tanner_graph.get(i)\<close> is \<open>None\<close> on a missing key\<close>
  "place_entry bound k i s t =
     (case map_of (p_graph s) i of
        None \<Rightarrow> Raise AttributeError
      | Some row \<Rightarrow>
          let avail = available_indices s; l = scan row avail
          in if l + placed_entries s = k then
               and_then (draw_until (\<lambda>x. count_list row x = 1) bound t)
                 (\<lambda>(x, t'). Return (s\<lparr>p_graph := AList.update i (row @ [x]) (p_graph s)\<rparr>, t'))
             else
               and_then (draw_until (\<lambda>x. count_list row (avail ! x) \<noteq> 0 \<and> 1 < length avail)
                           (length avail) t)
                 (\<lambda>(x, t'). Return
                    (s\<lparr>p_graph := AList.update i (row @ [avail ! x]) (p_graph s),
                       available_indices := list_pop x avail,
                       placed_entries := placed_entries s + 1\<rparr>, t')))"

definition placement_inv :: "nat \<Rightarrow> nat \<Rightarrow> nat \<Rightarrow> placement \<Rightarrow> bool" where
  \<comment> \<open>what the two loops keep true: the keys stay \<open>0..rows-1\<close>, no row repeats an index,
      every index is below \<open>bound\<close>, and the budget is the unplaced part of \<open>k\<close>\<close>
  "placement_inv rows bound k s \<longleftrightarrow>
     map fst (p_graph s) = [0..<rows] \<and>
     (\<forall>i row. map_of (p_graph s) i = Some row \<longrightarrow> distinct row \<and> set row \<subseteq> {..<bound}) \<and>
     length (available_indices s) + placed_entries s = k \<and>
     set (available_indices s) \<subseteq> {..<bound}"

definition row_progress :: "nat \<Rightarrow> nat \<Rightarrow> nat \<Rightarrow> nat \<Rightarrow> placement \<Rightarrow> nat \<Rightarrow> nat \<Rightarrow> placement \<Rightarrow> bool" where
  \<comment> \<open>after \<open>j\<close> passes of the inner loop on row \<open>i\<close>, started in state \<open>s\<close> with a row of length \<open>len\<close>\<close>
  "row_progress rows bound k i s len j u \<longleftrightarrow>
     placement_inv rows bound k u \<and>
     (\<exists>row. map_of (p_graph u) i = Some row \<and> length row = len + j) \<and>
     (\<forall>i'. i' \<noteq> i \<longrightarrow> map_of (p_graph u) i' = map_of (p_graph s) i')"

definition rows_filled :: "nat \<Rightarrow> nat \<Rightarrow> nat \<Rightarrow> nat \<Rightarrow> nat \<Rightarrow> placement \<Rightarrow> bool" where
  \<comment> \<open>after \<open>i\<close> passes of the outer loop: the rows below \<open>i\<close> are full, the others empty\<close>
  "rows_filled rows per_row bound k i u \<longleftrightarrow>
     placement_inv rows bound k u \<and>
     (\<forall>i'<i. \<exists>row. map_of (p_graph u) i' = Some row \<and> length row = per_row) \<and>
     (\<forall>i'. i \<le> i' \<and> i' < rows \<longrightarrow> map_of (p_graph u) i' = Some [])"

definition place_all :: "nat \<Rightarrow> nat \<Rightarrow> nat \<Rightarrow> nat \<Rightarrow> tape \<Rightarrow> (placement \<times> tape) outcome" where
  \<comment> \<open>the two nested loops over an initially empty graph of \<open>rows\<close> keys, with
      \<open>available_indices\<close> filled by \<open>for i in range(k - 1, -1, -1): append(i % bound)\<close>;
      the source has this code twice, once per method\<close>
  "place_all rows per_row bound k t =
     for_each (\<lambda>i. for_each (\<lambda>j. place_entry bound k i) [0..<per_row]) [0..<rows]
       \<lparr>p_graph = empty_rows rows,
        available_indices = map (\<lambda>i. i mod bound) (rev [0..<k]),
        placed_entries = 0\<rparr> t"

definition populate_rows :: "nat \<Rightarrow> nat \<Rightarrow> nat \<Rightarrow> tape \<Rightarrow> (graph \<times> tape) outcome" where
  \<comment> \<open>\<open>height = int(n * c / r)\<close>, \<open>width = n\<close>, \<open>k = n * c\<close>\<close>
  "populate_rows n r c t =
     and_then (int_truediv (n * c) r) (\<lambda>height.
       and_then (place_all height r n (n * c) t) (\<lambda>(s, t'). Return (p_graph s, t')))"

definition transpose_graph :: "graph \<Rightarrow> nat \<Rightarrow> graph" where
  \<comment> \<open>Modelled from the spec: \<open>transpose\<close> of TannerGraph.py is not among the sources; the
      column-regular graph is "transposed at the end to yield the check-node-major
      representation": check node \<open>i\<close> lists the keys whose sequence contains \<open>i\<close>.\<close>
  "transpose_graph g height =
     map (\<lambda>i. (i, map fst (filter (\<lambda>(j, row). i \<in> set row) g))) [0..<height]"

definition populate_columns :: "nat \<Rightarrow> nat \<Rightarrow> nat \<Rightarrow> tape \<Rightarrow> (graph \<times> tape) outcome" where
  \<comment> \<open>the graph is keyed by variable node while it is filled; \<open>i % height\<close> raises when
      \<open>height = 0\<close> and there is an index to compute\<close>
  "populate_columns n r c t =
     and_then (int_truediv (n * c) r) (\<lambda>height.
       if 0 < n * c \<and> height = 0 then Raise ZeroDivisionError
       else and_then (place_all n c height (n * c) t)
              (\<lambda>(s, t'). Return (transpose_graph (p_graph s) height, t')))"

subsection \<open>Gallager's construction\<close>

definition subgraph_rows :: "nat \<Rightarrow> nat \<Rightarrow> nat list \<Rightarrow> graph outcome" where
  \<comment> \<open>\<open>for i in range(rows): for j in range(int(r)): self.map[i].append(codeword_indices[i * r + j])\<close>\<close>
  "subgraph_rows rows r codeword_indices =
     for_pure (\<lambda>i m.
        for_pure (\<lambda>j m'.
           and_then (py_index codeword_indices (i * r + j)) (\<lambda>x.
             and_then (dict_get m' i) (\<lambda>row. Return (AList.update i (row @ [x]) m'))))
          [0..<r] m)
       [0..<rows] (empty_rows rows)"

definition SubGraph :: "nat \<Rightarrow> nat \<Rightarrow> tape \<Rightarrow> (graph \<times> tape) outcome" where
  \<comment> \<open>\<open>SubGraph.__init__\<close>: the result is the attribute \<open>map\<close>, of \<open>int(n / r)\<close> rows\<close>
  "SubGraph n r t =
     and_then (int_truediv n r) (\<lambda>rows.
       and_then (shuffle [0..<n] t) (\<lambda>(codeword_indices, t').
         and_then (subgraph_rows rows r codeword_indices) (\<lambda>m. Return (m, t'))))"

definition merge_key :: "nat \<Rightarrow> nat \<Rightarrow> nat \<Rightarrow> nat \<Rightarrow> nat outcome" where
  \<comment> \<open>\<open>int(i * n / r + j)\<close>\<close>
  "merge_key i j n r =
     and_then (py_truediv (i * n) r) (\<lambda>x.
       and_then (py_float j) (\<lambda>y. py_int (py_fadd x y)))"

definition merge :: "graph list \<Rightarrow> nat \<Rightarrow> nat \<Rightarrow> graph outcome" where
  "merge submatrices n r =
     for_pure (\<lambda>i merged.
        and_then (int_truediv n r) (\<lambda>rows.
          for_pure (\<lambda>j merged'.
             and_then (merge_key i j n r) (\<lambda>key.
               and_then (dict_get (submatrices ! i) j) (\<lambda>row.
                 Return (AList.update key row merged'))))
            [0..<rows] merged))
       [0..<length submatrices] []"

definition gallager :: "nat \<Rightarrow> nat \<Rightarrow> nat \<Rightarrow> tape \<Rightarrow> (graph \<times> tape) outcome" where
  \<comment> \<open>the test \<open>n % r != 0\<close> only prints a warning, but raises when \<open>r = 0\<close>\<close>
  "gallager n r c t =
     and_then (py_mod n r) (\<lambda>_.
       and_then
         (for_each (\<lambda>i submatrices t1.
             and_then (SubGraph n r t1) (\<lambda>(g, t2). Return (submatrices @ [g], t2)))
            [0..<c] [] t)
         (\<lambda>(submatrices, t').
            and_then (merge submatrices n r) (\<lambda>merged. Return (merged, t'))))"

subsection \<open>The dispatcher and the constructor\<close>

definition get_parity_check_graph ::
  "nat \<Rightarrow> nat \<Rightarrow> nat \<Rightarrow> string \<Rightarrow> tape \<Rightarrow> (graph \<times> tape) outcome" where
  "get_parity_check_graph n r c method t =
     (if method = ''gallager'' then gallager n r c t
      else if method = ''populate-rows'' then populate_rows n r c t
      else if method = ''populate-columns'' then populate_columns n r c t
      else Raise InvalidConstruction)"

record regular_ldpc = tanner +
  ldpc_args :: "nat list"
  ldpc_construction :: string
  ldpc_n :: nat
  ldpc_c :: nat
  ldpc_r :: nat

definition inferred_row_weight :: "nat \<Rightarrow> nat \<Rightarrow> nat \<Rightarrow> nat outcome" where
  \<comment> \<open>\<open>int((self.width / self.height) * self.c)\<close>\<close>
  "inferred_row_weight width height c =
     and_then (py_truediv width height) (\<lambda>q.
       and_then (py_float c) (\<lambda>fc. py_int (py_fmul q fc)))"

fun RegularLDPC_init :: "nat list \<Rightarrow> string \<Rightarrow> tape \<Rightarrow> (regular_ldpc \<times> tape) outcome" where
  \<comment> \<open>\<open>RegularLDPC.__init__\<close>; \<open>self.args[0]\<close> is read before the length of \<open>args\<close> is tested\<close>
  "RegularLDPC_init [] construction t = Raise IndexError"
| "RegularLDPC_init [a0, a1, a2] construction t =
     and_then (inferred_row_weight a0 a1 a2) (\<lambda>r.
       and_then (get_parity_check_graph a0 r a2 construction t) (\<lambda>(g, t').
         Return (\<lparr>tanner_graph = g, tg_width = a0, tg_height = a1,
                  ldpc_args = [a0, a1, a2], ldpc_construction = construction,
                  ldpc_n = a0, ldpc_c = a2, ldpc_r = r\<rparr>, t')))"
| "RegularLDPC_init args construction t = Raise InvalidArguments"


section \<open>TannerGraph and Identity\<close>

text \<open>
  TannerGraph.py and Identity.py are not among the sources. What the lift needs of them is
  modelled from the specification of the base container and of the permutation structure.
\<close>

definition add_edges :: "graph \<Rightarrow> nat \<Rightarrow> nat list \<Rightarrow> graph outcome" where
  \<comment> \<open>Modelled from the spec: one row of \<open>splice\<close>. Each edge is added to the row of the
      target; a duplicate edge in a row is an InvalidStructure error.\<close>
  "add_edges g row cols =
     for_pure (\<lambda>col g'.
        and_then (dict_get g' row) (\<lambda>xs.
          if col \<in> set xs then Raise InvalidStructure
          else Return (AList.update row (xs @ [col]) g')))
       cols g"

definition insert_graph :: "graph \<Rightarrow> graph \<Rightarrow> nat \<Rightarrow> nat \<Rightarrow> graph outcome" where
  \<comment> \<open>Modelled from the spec: \<open>TannerGraph.insert(submatrix, [r, c])\<close> is \<open>splice\<close>: for every
      edge \<open>(row, col)\<close> of the submatrix, the edge \<open>(row + r, col + c)\<close> is added to the target.\<close>
  "insert_graph target sub r c =
     for_pure (\<lambda>(row, cols) g. add_edges g (row + r) (map (\<lambda>col. col + c) cols)) sub target"

definition Identity :: "nat list \<Rightarrow> tanner" where
  \<comment> \<open>Modelled from the spec: the permutation structure of a list \<open>p\<close> maps row \<open>i\<close> to the
      single column \<open>p[i]\<close>, as a one-edge-per-row graph.\<close>
  "Identity p =
     \<lparr>tanner_graph = map (\<lambda>i. (i, [p ! i])) [0..<length p],
      tg_width = length p, tg_height = length p\<rparr>"

definition overlaps :: "tanner \<Rightarrow> tanner \<Rightarrow> bool" where
  \<comment> \<open>Modelled from the spec: true iff some row maps to the same column in both structures.\<close>
  "overlaps a b =
     list_ex (\<lambda>(i, cols). case map_of (tanner_graph a) i of
                             None \<Rightarrow> False
                           | Some xs \<Rightarrow> list_ex (\<lambda>col. col \<in> set xs) cols)
       (tanner_graph b)"

definition absorb_nonoverlapping :: "tanner \<Rightarrow> tanner \<Rightarrow> nat \<Rightarrow> nat \<Rightarrow> tanner" where
  \<comment> \<open>Modelled from the spec: the union of both edge sets, the second operand placed at the
      given offset; each row may then hold several column indices.\<close>
  "absorb_nonoverlapping a b r c =
     a\<lparr>tanner_graph :=
         fold (\<lambda>(row, cols) g.
                 case map_of g (row + r) of
                   None \<Rightarrow> g
                 | Some xs \<Rightarrow> AList.update (row + r) (xs @ map (\<lambda>col. col + c) cols) g)
           (tanner_graph b) (tanner_graph a)\<rparr>"

definition permute_rows :: "tanner \<Rightarrow> tape \<Rightarrow> (tanner \<times> tape) outcome" where
  \<comment> \<open>Modelled from the spec: a random permutation applied to the order of the check nodes.\<close>
  "permute_rows g t =
     and_then (shuffle [0..<length (tanner_graph g)] t) (\<lambda>(p, t').
       Return (g\<lparr>tanner_graph :=
                   map (\<lambda>i. (i, snd (tanner_graph g ! (p ! i)))) [0..<length (tanner_graph g)]\<rparr>, t'))"

definition permute_columns :: "tanner \<Rightarrow> tape \<Rightarrow> (tanner \<times> tape) outcome" where
  \<comment> \<open>Modelled from the spec: a random permutation applied to every variable-node index.\<close>
  "permute_columns g t =
     and_then (shuffle [0..<tg_width g] t) (\<lambda>(q, t').
       and_then
         (for_pure (\<lambda>(i, cols) rows.
             and_then (for_pure (\<lambda>col acc. and_then (py_index q col) (\<lambda>x. Return (acc @ [x]))) cols [])
               (\<lambda>cols'. Return (rows @ [(i, cols')])))
            (tanner_graph g) [])
         (\<lambda>rows. Return (g\<lparr>tanner_graph := rows\<rparr>, t')))"

subsection \<open>Rows as shared list objects\<close>

text \<open>
  The cyclic construction hands one list object to the graph and then shifts that object in
  place, so its graph holds references into a store of list objects.
\<close>

type_synonym ref = nat

record heap =
  cells :: "ref \<Rightarrow> nat list"
  next_ref :: ref

definition empty_heap :: heap where
  "empty_heap = \<lparr>cells = (\<lambda>_. []), next_ref = 0\<rparr>"

definition new_list :: "nat list \<Rightarrow> heap \<Rightarrow> ref \<times> heap" where
  \<comment> \<open>a new list object\<close>
  "new_list xs h = (next_ref h, h\<lparr>cells := (cells h)(next_ref h := xs), next_ref := Suc (next_ref h)\<rparr>)"

definition list_copy :: "ref \<Rightarrow> heap \<Rightarrow> ref \<times> heap" where
  \<comment> \<open>\<open>xs.copy()\<close>\<close>
  "list_copy a h = new_list (cells h a) h"

record ref_graph =
  rg_rows :: "(nat \<times> ref) list"
  rg_width :: nat
  rg_height :: nat

definition make_graph :: "nat \<Rightarrow> nat \<Rightarrow> nat \<Rightarrow> heap \<Rightarrow> ref_graph \<times> heap" where
  \<comment> \<open>Modelled from the spec: \<open>make_graph(rows, height, width)\<close> allocates a graph of \<open>rows\<close>
      check nodes, each with an empty adjacency sequence of its own, and sets the attributes.\<close>
  "make_graph rows height width h =
     (\<lparr>rg_rows = map (\<lambda>i. (i, next_ref h + i)) [0..<rows], rg_width = width, rg_height = height\<rparr>,
      h\<lparr>cells := (\<lambda>a. if next_ref h \<le> a \<and> a < next_ref h + rows then [] else cells h a),
        next_ref := next_ref h + rows\<rparr>)"

definition put :: "ref_graph \<Rightarrow> nat \<Rightarrow> ref \<Rightarrow> ref_graph" where
  \<comment> \<open>Modelled from the spec: \<open>put(row, sequence)\<close> replaces the adjacency sequence of one
      check node by the sequence it is given: the row is that list object from then on.\<close>
  "put g key v = g\<lparr>rg_rows := AList.update key v (rg_rows g)\<rparr>"

definition right_shift_row :: "ref \<Rightarrow> nat \<Rightarrow> heap \<Rightarrow> heap" where
  \<comment> \<open>Modelled from the spec: every index of the row advances by one modulo the width. The
      caller discards the result of the call, so the list object itself is changed.\<close>
  "right_shift_row a width h = h\<lparr>cells := (cells h)(a := map (\<lambda>x. (x + 1) mod width) (cells h a))\<rparr>"

definition freeze :: "heap \<Rightarrow> ref_graph \<Rightarrow> tanner" where
  \<comment> \<open>the graph as its readers see it: every row with the present contents of its list\<close>
  "freeze h g =
     \<lparr>tanner_graph = map (\<lambda>(i, a). (i, cells h a)) (rg_rows g),
      tg_width = rg_width g, tg_height = rg_height g\<rparr>"

section \<open>ProtographLDPC\<close>

fun cyclic_rows :: "nat list \<Rightarrow> ref \<Rightarrow> ref_graph \<Rightarrow> heap \<Rightarrow> ref_graph \<times> heap" where
  \<comment> \<open>the loop body: \<open>new = first_row_indices.copy(); graph.put(i, new);
      right_shift_row(new, graph.width); first_row_indices = new\<close>\<close>
  "cyclic_rows [] first_row_indices graph h = (graph, h)"
| "cyclic_rows (i # is) first_row_indices graph h =
     (let (new, h1) = list_copy first_row_indices h;
          graph1 = put graph i new;
          h2 = right_shift_row new (rg_width graph1) h1
      in cyclic_rows is new graph1 h2)"

definition construct_cyclic_submatrix :: "ref \<Rightarrow> ref_graph \<Rightarrow> heap \<Rightarrow> ref_graph \<times> heap" where
  "construct_cyclic_submatrix first_row_indices graph h =
     cyclic_rows [0..<rg_width graph] first_row_indices graph h"

fun absorb_fresh_permutation :: "tanner \<Rightarrow> nat \<Rightarrow> tape \<Rightarrow> (tanner \<times> tape) outcome" where
  \<comment> \<open>\<open>while True: trial_permutation = Identity(random.sample(range(factor), factor)); if not
      start.overlaps(trial_permutation): start = start.absorb_nonoverlapping(...); break\<close>.
      A rejected trial that drew nothing would be repeated for ever.\<close>
  "absorb_fresh_permutation start factor t =
     (case sample [0..<factor] factor t of
        Pending \<Rightarrow> Pending
      | Raise e \<Rightarrow> Raise e
      | Return (p, t') \<Rightarrow>
          if \<not> overlaps start (Identity p) then
            Return (absorb_nonoverlapping start (Identity p) 0 0, t')
          else if length t' < length t then absorb_fresh_permutation start factor t'
          else Pending)"

declare absorb_fresh_permutation.simps [simp del]

definition submatrix :: "string \<Rightarrow> nat \<Rightarrow> nat \<Rightarrow> tape \<Rightarrow> (tanner \<times> tape) outcome" where
  "submatrix submatrix_construction factor num_ones_per_row t =
     (if submatrix_construction = ''permutation'' then
        and_then (sample [0..<factor] factor t) (\<lambda>(p, t1).
          if num_ones_per_row = 1 then Return (Identity p, t1)
          else for_each (\<lambda>i start. absorb_fresh_permutation start factor)
                 [0..<num_ones_per_row - 1] (Identity p) t1)
      else if submatrix_construction = ''regular'' then
        and_then (RegularLDPC_init [factor, factor, num_ones_per_row] ''populate-rows'' t)
          (\<lambda>(code, t1). Return (tanner.truncate code, t1))
      else if submatrix_construction = ''quasi-cyclic'' then
        (let (qc_graph, h1) = make_graph factor factor factor empty_heap
         in and_then (sample [0..<factor] num_ones_per_row t) (\<lambda>(indices, t1).
              let (first_row_indices, h2) = new_list indices h1;
                  (qc_graph', h3) = construct_cyclic_submatrix first_row_indices qc_graph h2
              in Return (freeze h3 qc_graph', t1)))
      else if submatrix_construction = ''permuted-quasi-cyclic'' then
        (let (graph, h1) = make_graph factor factor factor empty_heap;
             (first_row_indices, h2) = new_list [0..<num_ones_per_row] h1;
             (graph', h3) = construct_cyclic_submatrix first_row_indices graph h2
         in and_then (permute_rows (freeze h3 graph') t) (\<lambda>(g1, t1). permute_columns g1 t1))
      else Raise InvalidConstruction)"

record protograph =
  pg_width :: nat
  pg_height :: nat
  pg_get :: "nat \<Rightarrow> nat \<Rightarrow> nat"

definition py_range_step :: "nat \<Rightarrow> nat \<Rightarrow> nat list outcome" where
  \<comment> \<open>\<open>range(0, stop, step)\<close>\<close>
  "py_range_step stop step =
     (if step = 0 then Raise ValueError
      else Return (map (\<lambda>i. i * step) [0..<(stop + step - 1) div step]))"

definition expand_block ::
  "protograph \<Rightarrow> nat \<Rightarrow> string \<Rightarrow> nat \<Rightarrow> nat \<Rightarrow> graph \<Rightarrow> tape \<Rightarrow> (graph \<times> tape) outcome" where
  \<comment> \<open>the body of the inner loop at block offset \<open>(r, c)\<close>. Modelled from the spec:
      \<open>protograph.get(r / factor, c / factor)\<close> reads the cell of the block, \<open>(row, col)\<close> with
      \<open>r = row * factor\<close> and \<open>c = col * factor\<close>.\<close>
  "expand_block p factor construction r c expanded t =
     (let v = pg_get p (r div factor) (c div factor)
      in if factor < v then Raise InvalidProtograph
         else if v = 0 then Return (expanded, t)
         else and_then (submatrix construction factor v t) (\<lambda>(sub, t').
                and_then (insert_graph expanded (tanner_graph sub) r c) (\<lambda>g. Return (g, t'))))"

definition expanded_protograph ::
  "protograph \<Rightarrow> nat \<Rightarrow> string \<Rightarrow> tape \<Rightarrow> (graph \<times> tape) outcome" where
  \<comment> \<open>\<open>expanded\<close> starts as \<open>pg_height * factor\<close> empty rows (one \<open>addRow\<close> each)\<close>
  "expanded_protograph p factor construction t =
     (let expanded = empty_rows (pg_height p * factor)
      in and_then (py_range_step (length expanded) factor) (\<lambda>rs.
           for_each (\<lambda>r g t1.
              and_then (py_range_step (pg_width p * factor) factor) (\<lambda>cs.
                for_each (\<lambda>c. expand_block p factor construction r c) cs g t1))
             rs expanded t))"

record protograph_ldpc = tanner +
  pl_construction :: string
  pl_protograph :: protograph
  pl_factor :: nat

definition ProtographLDPC_init ::
  "protograph \<Rightarrow> nat \<Rightarrow> string \<Rightarrow> tape \<Rightarrow> (protograph_ldpc \<times> tape) outcome" where
  "ProtographLDPC_init p factor construction t =
     and_then (expanded_protograph p factor construction t) (\<lambda>(g, t').
       Return (\<lparr>tanner_graph = g,
                tg_width = pg_width p * factor,
                tg_height = pg_height p * factor,
                pl_construction = construction, pl_protograph = p, pl_factor = factor\<rparr>, t'))"

section \<open>Outcomes and loops\<close>

lemma and_then_Return_iff:
  "and_then m f = Return y \<longleftrightarrow> (\<exists>x. m = Return x \<and> f x = Return y)"
  by (cases m) auto

lemma for_each_rule:
  assumes "for_each body xs s t = Return (s', t')"
    and "P 0 s"
    and "\<And>j u t1 u' t2. j < length xs \<Longrightarrow> P j u \<Longrightarrow> body (xs ! j) u t1 = Return (u', t2) \<Longrightarrow> P (Suc j) u'"
  shows "P (length xs) s'"
  using assms
proof (induction xs arbitrary: s t P)
  case Nil
  then show ?case by simp
next
  case (Cons x xs)
  from Cons.prems(1) obtain u t1 where
    step: "body x s t = Return (u, t1)" and rest: "for_each body xs u t1 = Return (s', t')"
    by (auto simp: and_then_Return_iff)
  have "P (Suc 0) u"
    using Cons.prems(3)[of 0 s t u t1] Cons.prems(2) step by simp
  moreover have "\<And>j v t3 v' t4. j < length xs \<Longrightarrow> P (Suc j) v \<Longrightarrow>
      body (xs ! j) v t3 = Return (v', t4) \<Longrightarrow> P (Suc (Suc j)) v'"
    using Cons.prems(3)[of "Suc _"] by simp
  ultimately have "P (Suc (length xs)) s'"
    using Cons.IH[of u t1 "\<lambda>j. P (Suc j)"] rest by blast
  then show ?case by simp
qed

lemma for_pure_rule:
  assumes "for_pure body xs s = Return s'"
    and "P 0 s"
    and "\<And>j u u'. j < length xs \<Longrightarrow> P j u \<Longrightarrow> body (xs ! j) u = Return u' \<Longrightarrow> P (Suc j) u'"
  shows "P (length xs) s'"
  using assms
proof (induction xs arbitrary: s P)
  case Nil
  then show ?case by simp
next
  case (Cons x xs)
  from Cons.prems(1) obtain u where
    step: "body x s = Return u" and rest: "for_pure body xs u = Return s'"
    by (auto simp: and_then_Return_iff)
  have "P (Suc 0) u"
    using Cons.prems(3)[of 0 s u] Cons.prems(2) step by simp
  moreover have "\<And>j v v'. j < length xs \<Longrightarrow> P (Suc j) v \<Longrightarrow>
      body (xs ! j) v = Return v' \<Longrightarrow> P (Suc (Suc j)) v'"
    using Cons.prems(3)[of "Suc _"] by simp
  ultimately have "P (Suc (length xs)) s'"
    using Cons.IH[of u "\<lambda>j. P (Suc j)"] rest by blast
  then show ?case by simp
qed

lemma for_each_exists:
  assumes "P 0 s"
    and "\<And>j u. j < length xs \<Longrightarrow> P j u \<Longrightarrow>
           \<exists>w u'. (\<forall>t. body (xs ! j) u (w @ t) = Return (u', t)) \<and> P (Suc j) u'"
  shows "\<exists>w s'. (\<forall>t. for_each body xs s (w @ t) = Return (s', t)) \<and> P (length xs) s'"
  using assms
proof (induction xs arbitrary: s P)
  case Nil
  then show ?case by (intro exI[of _ "[]"]) simp
next
  case (Cons x xs)
  from Cons.prems(2)[of 0 s] Cons.prems(1) obtain w u where
    step: "\<forall>t. body x s (w @ t) = Return (u, t)" and Pu: "P (Suc 0) u"
    by auto
  have "\<And>j v. j < length xs \<Longrightarrow> P (Suc j) v \<Longrightarrow>
      \<exists>w v'. (\<forall>t. body (xs ! j) v (w @ t) = Return (v', t)) \<and> P (Suc (Suc j)) v'"
    using Cons.prems(2)[of "Suc _"] by simp
  with Cons.IH[of "\<lambda>j. P (Suc j)" u] Pu obtain w' s' where
    rest: "\<forall>t. for_each body xs u (w' @ t) = Return (s', t)" and Ps: "P (Suc (length xs)) s'"
    by blast
  have "\<forall>t. for_each body (x # xs) s ((w @ w') @ t) = Return (s', t)"
    using step rest by simp
  with Ps show ?case by (metis length_Cons)
qed

section \<open>Exact binary64 arithmetic on small integers\<close>


lemma bitlen_zero: "bitlen 0 = 0"
  by (simp add: bitlen.simps)

lemma bitlen_bounds: "0 < n \<Longrightarrow> n < 2 ^ bitlen n \<and> 2 ^ bitlen n \<le> 2 * n"
proof (induction n rule: bitlen.induct)
  case (1 n)
  show ?case
  proof (cases "n div 2 = 0")
    case True
    with "1.prems" have "n = 1" by presburger
    then show ?thesis by (simp add: bitlen.simps)
  next
    case False
    then have ih: "n div 2 < 2 ^ bitlen (n div 2)" "2 ^ bitlen (n div 2) \<le> 2 * (n div 2)"
      using "1.IH" "1.prems" by auto
    have unf: "bitlen n = Suc (bitlen (n div 2))"
      using "1.prems" by (subst bitlen.simps) simp
    from ih show ?thesis unfolding unf by (simp; presburger)
  qed
qed

lemma bitlen_mono: "a \<le> b \<Longrightarrow> bitlen a \<le> bitlen b"
proof (cases "a = 0")
  case True
  then show ?thesis by (simp add: bitlen_zero)
next
  case False
  assume ab: "a \<le> b"
  with False have pos: "0 < a" "0 < b" by auto
  show ?thesis
  proof (rule ccontr)
    assume "\<not> bitlen a \<le> bitlen b"
    then have "Suc (bitlen b) \<le> bitlen a" by simp
    then have "(2::nat) ^ Suc (bitlen b) \<le> 2 ^ bitlen a"
      by (rule power_increasing) simp
    also have "\<dots> \<le> 2 * a" using bitlen_bounds[OF pos(1)] by simp
    also have "\<dots> \<le> 2 * b" using ab by simp
    finally have "2 ^ bitlen b \<le> b" by simp
    with bitlen_bounds[OF pos(2)] show False by simp
  qed
qed

lemma rne_exact: "0 < y \<Longrightarrow> rne (x * y) y = x"
  by (simp add: rne_def)

lemma round_binary64_exact:
  assumes b: "0 < b" and q: "0 < q" "q < 2 ^ 53"
  shows "\<exists>e. - 52 \<le> e \<and> e \<le> 0 \<and> round_binary64 (q * b) b = Finite (q * 2 ^ nat (- e)) e"
proof -
  define a where "a = q * b"
  define k where "k = int (bitlen a) - int (bitlen b)"
  define lg where "lg = floor_log2_quot a b"
  have a_pos: "0 < a" using b q by (simp add: a_def)
  have ba: "b \<le> a" using q by (simp add: a_def)
  have k0: "0 \<le> k" using bitlen_mono[OF ba] by (simp add: k_def)
  have lg_eq: "lg = (if b * 2 ^ nat k \<le> a then k else k - 1)"
    using k0 by (simp add: lg_def floor_log2_quot_def k_def Let_def)
  have lg_lo: "0 \<le> lg"
  proof (cases "k = 0")
    case True
    then show ?thesis using ba by (simp add: lg_eq)
  next
    case False
    then show ?thesis using k0 by (simp add: lg_eq)
  qed
  have lg_hi: "lg \<le> 52"
  proof (cases "b * 2 ^ nat k \<le> a")
    case True
    then have "2 ^ nat k * b \<le> q * b" by (simp add: a_def mult.commute)
    then have "2 ^ nat k \<le> q" using b by simp
    then have "(2::nat) ^ nat k < 2 ^ 53" using q by simp
    then have "nat k < 53" by (simp only: power_strict_increasing_iff) 
    then show ?thesis using True k0 by (simp add: lg_eq)
  next
    case False
    have "(2::nat) ^ bitlen a \<le> 2 * a" using bitlen_bounds[OF a_pos] by simp
    also have "\<dots> = (2 * q) * b" by (simp add: a_def)
    also have "\<dots> < (2 * q) * 2 ^ bitlen b"
      using bitlen_bounds[OF b] q by simp
    also have "\<dots> < 2 ^ 54 * 2 ^ bitlen b" using q by simp
    finally have "(2::nat) ^ bitlen a < 2 ^ (54 + bitlen b)" by (simp add: power_add)
    then have "bitlen a < 54 + bitlen b" by (simp only: power_strict_increasing_iff)
    then have "k < 54" by (simp add: k_def)
    then show ?thesis using False by (simp add: lg_eq)
  qed
  define e where "e = lg - 52"
  have e_bounds: "- 52 \<le> e" "e \<le> 0" using lg_lo lg_hi by (simp_all add: e_def)
  have max_e: "max (lg - 52) (- 1074) = e" using e_bounds by (simp add: e_def)
  have nat_e: "nat e = 0" using e_bounds by simp
  have mant: "rne (a * 2 ^ nat (- e)) (b * 2 ^ nat e) = q * 2 ^ nat (- e)"
  proof -
    have eq: "a * 2 ^ nat (- e) = (q * 2 ^ nat (- e)) * b" by (simp add: a_def)
    have "rne (a * 2 ^ nat (- e)) b = q * 2 ^ nat (- e)"
      unfolding eq by (rule rne_exact[OF b])
    then show ?thesis by (simp add: nat_e)
  qed
  have no_overflow: "\<not> (2 ^ 1024 * 2 ^ nat (- e) \<le> q * 2 ^ nat (- e) * 2 ^ nat e)"
  proof -
    have "q < 2 ^ 1024"
      using q(2) by (rule less_le_trans) simp
    then show ?thesis by (simp add: nat_e)
  qed
  have "round_binary64 (q * b) b = Finite (q * 2 ^ nat (- e)) e"
    using a_pos mant no_overflow max_e
    unfolding round_binary64_def a_def[symmetric] lg_def[symmetric] Let_def
    by simp
  with e_bounds show ?thesis by blast
qed


lemma round_binary64_exact_float:
  assumes "0 < b" and "q < 2 ^ 53"
  shows "exact_float (round_binary64 (q * b) b) q"
proof (cases "q = 0")
  case True
  have "Finite 0 0 = Finite (0 * 2 ^ nat (- 0)) 0" by simp
  then show ?thesis unfolding exact_float_def True round_binary64_def by auto
next
  case False
  with round_binary64_exact[OF assms(1) _ assms(2)] show ?thesis
    unfolding exact_float_def by auto
qed

lemma exact_float_int: "exact_float x q \<Longrightarrow> py_int x = Return q"
  by (auto simp: exact_float_def)

lemma exact_float_finite: "exact_float x q \<Longrightarrow> \<exists>m e. x = Finite m e"
  by (auto simp: exact_float_def)

lemma round_scaled_exact:
  assumes "E \<le> 0" and "q < 2 ^ 53"
  shows "exact_float (round_scaled (q * 2 ^ nat (- E)) E) q"
proof (cases "E = 0")
  case True
  then show ?thesis
    using round_binary64_exact_float[of 1 q] assms(2) by (simp add: round_scaled_def)
next
  case False
  with assms(1) have "E < 0" by simp
  then show ?thesis
    using round_binary64_exact_float[of "2 ^ nat (- E)" q] assms(2) by (simp add: round_scaled_def)
qed

lemma py_fmul_exact:
  assumes "exact_float x p" and "exact_float y q" and "p * q < 2 ^ 53"
  shows "exact_float (py_fmul x y) (p * q)"
proof -
  from assms(1) obtain e1 where e1: "e1 \<le> 0" "x = Finite (p * 2 ^ nat (- e1)) e1"
    by (auto simp: exact_float_def)
  from assms(2) obtain e2 where e2: "e2 \<le> 0" "y = Finite (q * 2 ^ nat (- e2)) e2"
    by (auto simp: exact_float_def)
  have n: "nat (- (e1 + e2)) = nat (- e1) + nat (- e2)" using e1(1) e2(1) by simp
  have "p * 2 ^ nat (- e1) * (q * 2 ^ nat (- e2)) = (p * q) * 2 ^ (nat (- e1) + nat (- e2))"
    by (simp add: power_add)
  also have "\<dots> = (p * q) * 2 ^ nat (- (e1 + e2))" by (simp only: n)
  finally have prod: "p * 2 ^ nat (- e1) * (q * 2 ^ nat (- e2)) = (p * q) * 2 ^ nat (- (e1 + e2))" .
  have "py_fmul x y = round_scaled (p * 2 ^ nat (- e1) * (q * 2 ^ nat (- e2))) (e1 + e2)"
    by (simp only: e1(2) e2(2) py_fmul.simps)
  then have "py_fmul x y = round_scaled ((p * q) * 2 ^ nat (- (e1 + e2))) (e1 + e2)"
    by (simp only: prod)
  moreover have "e1 + e2 \<le> 0" using e1(1) e2(1) by simp
  ultimately show ?thesis using round_scaled_exact[of "e1 + e2" "p * q"] assms(3) by simp
qed

lemma py_fadd_exact:
  assumes "exact_float x p" and "exact_float y q" and "p + q < 2 ^ 53"
  shows "exact_float (py_fadd x y) (p + q)"
proof -
  from assms(1) obtain e1 where e1: "e1 \<le> 0" "x = Finite (p * 2 ^ nat (- e1)) e1"
    by (auto simp: exact_float_def)
  from assms(2) obtain e2 where e2: "e2 \<le> 0" "y = Finite (q * 2 ^ nat (- e2)) e2"
    by (auto simp: exact_float_def)
  define e where "e = min e1 e2"
  have e0: "e \<le> 0" using e1(1) by (simp add: e_def)
  have n1: "nat (- e1) + nat (e1 - e) = nat (- e)" using e1(1) by (simp add: e_def)
  have n2: "nat (- e2) + nat (e2 - e) = nat (- e)" using e2(1) by (simp add: e_def)
  have "p * 2 ^ nat (- e1) * 2 ^ nat (e1 - e) + q * 2 ^ nat (- e2) * 2 ^ nat (e2 - e)
        = (p + q) * 2 ^ nat (- e)"
    by (simp add: mult.assoc power_add[symmetric] n1 n2 add_mult_distrib)
  then have "py_fadd x y = round_scaled ((p + q) * 2 ^ nat (- e)) e"
    by (simp add: e1(2) e2(2) e_def[symmetric] Let_def)
  then show ?thesis using round_scaled_exact[OF e0, of "p + q"] assms(3) by simp
qed

lemma py_truediv_exact:
  assumes "0 < b" and "q < 2 ^ 53"
  shows "\<exists>x. py_truediv (q * b) b = Return x \<and> exact_float x q"
proof -
  have ex: "exact_float (round_binary64 (q * b) b) q"
    by (rule round_binary64_exact_float[OF assms])
  then obtain m e where "round_binary64 (q * b) b = Finite m e"
    using exact_float_finite by blast
  with ex assms(1) show ?thesis by (simp add: py_truediv_def)
qed

lemma py_float_exact:
  assumes "q < 2 ^ 53"
  shows "\<exists>x. py_float q = Return x \<and> exact_float x q"
proof -
  have ex: "exact_float (round_binary64 q 1) q"
    using round_binary64_exact_float[of 1 q] assms by simp
  then obtain m e where "round_binary64 q 1 = Finite m e"
    using exact_float_finite by blast
  with ex show ?thesis by (simp add: py_float_def)
qed

lemma int_truediv_exact:
  assumes "0 < b" and "q < 2 ^ 53"
  shows "int_truediv (q * b) b = Return q"
  using py_truediv_exact[OF assms] by (auto simp: int_truediv_def exact_float_int)

lemma int_truediv_dvd:
  assumes "0 < r" and "r dvd a" and "a div r < 2 ^ 53"
  shows "int_truediv a r = Return (a div r)"
  using int_truediv_exact[OF assms(1) assms(3)] assms(2) by simp

lemma inferred_row_weight_square:
  assumes "0 < f" and "v < 2 ^ 53"
  shows "inferred_row_weight f f v = Return v"
proof -
  obtain x where x: "py_truediv f f = Return x" "exact_float x 1"
    using py_truediv_exact[of f 1] assms(1) by auto
  obtain y where y: "py_float v = Return y" "exact_float y v"
    using py_float_exact[OF assms(2)] by auto
  have "exact_float (py_fmul x y) (1 * v)"
    by (rule py_fmul_exact[OF x(2) y(2)]) (use assms(2) in simp)
  then show ?thesis
    by (simp add: inferred_row_weight_def x(1) y(1) exact_float_int)
qed

lemma merge_key_exact:
  assumes "0 < r" and "r dvd n" and "i * (n div r) + j < 2 ^ 53"
  shows "merge_key i j n r = Return (i * (n div r) + j)"
proof -
  have lt: "i * (n div r) < 2 ^ 53" "j < 2 ^ 53" using assms(3) by simp_all
  have "i * n = (i * (n div r)) * r" using assms(2) by (simp add: mult.assoc)
  then obtain x where x: "py_truediv (i * n) r = Return x" "exact_float x (i * (n div r))"
    using py_truediv_exact[OF assms(1) lt(1)] by auto
  obtain y where y: "py_float j = Return y" "exact_float y j"
    using py_float_exact[OF lt(2)] by auto
  have "exact_float (py_fadd x y) (i * (n div r) + j)"
    by (rule py_fadd_exact[OF x(2) y(2) assms(3)])
  then show ?thesis by (simp add: merge_key_def x(1) y(1) exact_float_int)
qed

section \<open>The placement loops\<close>

lemma draw_until_Return:
  "draw_until rejected m t = Return (x, t') \<Longrightarrow> x < m \<and> \<not> rejected x"
  by (induction t) (auto split: if_splits)

lemma draw_until_accept:
  "x < m \<Longrightarrow> \<not> rejected x \<Longrightarrow> draw_until rejected m (x # t) = Return (x, t)"
  by simp

lemma distinct_count_list_Suc0: "distinct xs \<Longrightarrow> count_list xs x = Suc 0 \<longleftrightarrow> x \<in> set xs"
  by (induction xs) auto

lemma distinct_count_list_one: "distinct xs \<Longrightarrow> count_list xs x = 1 \<longleftrightarrow> x \<in> set xs"
  by (simp add: distinct_count_list_Suc0)

lemma scan_le: "scan row avail \<le> length avail"
  by (simp add: scan_def length_takeWhile_le)

lemma scan_stops:
  "scan row avail < length avail \<Longrightarrow> count_list row (avail ! scan row avail) \<noteq> 1"
  unfolding scan_def by (rule nth_length_takeWhile)

lemma length_list_pop: "i < length xs \<Longrightarrow> length (list_pop i xs) = length xs - 1"
  by (simp add: list_pop_def)

lemma set_list_pop: "set (list_pop i xs) \<subseteq> set xs"
  by (auto simp: list_pop_def dest: in_set_takeD in_set_dropD)

lemma keys_lookup:
  "map fst g = [0..<rows] \<Longrightarrow> i < rows \<Longrightarrow> \<exists>row. map_of g i = Some row"
proof -
  assume k: "map fst g = [0..<rows]" and i: "i < rows"
  then have "i \<in> fst ` set g" by (metis atLeastLessThan_iff list.set_map set_upt zero_le)
  then show ?thesis by (cases "map_of g i") (auto simp: map_of_eq_None_iff)
qed

lemma keys_update:
  "map fst g = [0..<rows] \<Longrightarrow> i < rows \<Longrightarrow> map fst (AList.update i v g) = [0..<rows]"
  by (simp add: update_keys)

lemma placement_inv_keys: "placement_inv rows bound k s \<Longrightarrow> map fst (p_graph s) = [0..<rows]"
  unfolding placement_inv_def by blast

lemma placement_inv_row:
  "placement_inv rows bound k s \<Longrightarrow> map_of (p_graph s) i = Some row \<Longrightarrow>
     distinct row \<and> set row \<subseteq> {..<bound}"
  unfolding placement_inv_def by blast

lemma placement_inv_budget:
  "placement_inv rows bound k s \<Longrightarrow>
     length (available_indices s) + placed_entries s = k \<and> set (available_indices s) \<subseteq> {..<bound}"
  unfolding placement_inv_def by blast

lemma placement_inv_append:
  assumes inv: "placement_inv rows bound k s"
    and i: "i < rows"
    and row: "map_of (p_graph s) i = Some row"
    and x: "x \<notin> set row" "x < bound"
    and budget: "length avail' + placed' = k" "set avail' \<subseteq> {..<bound}"
  shows "placement_inv rows bound k
           (s\<lparr>p_graph := AList.update i (row @ [x]) (p_graph s),
              available_indices := avail', placed_entries := placed'\<rparr>)"
proof -
  from placement_inv_row[OF inv row] x
  have new: "distinct (row @ [x])" "set (row @ [x]) \<subseteq> {..<bound}" by auto
  have keys: "map fst (AList.update i (row @ [x]) (p_graph s)) = [0..<rows]"
    by (rule keys_update[OF placement_inv_keys[OF inv] i])
  have rows_ok: "distinct r' \<and> set r' \<subseteq> {..<bound}"
    if "map_of (AList.update i (row @ [x]) (p_graph s)) i' = Some r'" for i' r'
  proof (cases "i' = i")
    case True
    with that have "r' = row @ [x]" by (simp add: update_conv')
    with new show ?thesis by simp
  next
    case False
    with that have "map_of (p_graph s) i' = Some r'" by (simp add: update_conv')
    then show ?thesis by (rule placement_inv_row[OF inv])
  qed
  show ?thesis
    unfolding placement_inv_def using keys rows_ok budget by simp
qed

lemma place_entry_step:
  assumes inv: "placement_inv rows bound k s"
    and i: "i < rows"
    and run: "place_entry bound k i s t = Return (s', t')"
  shows "placement_inv rows bound k s' \<and>
         (\<exists>row x. map_of (p_graph s) i = Some row \<and> map_of (p_graph s') i = Some (row @ [x])) \<and>
         (\<forall>i'. i' \<noteq> i \<longrightarrow> map_of (p_graph s') i' = map_of (p_graph s) i')"
proof -
  from keys_lookup[OF placement_inv_keys[OF inv] i]
  obtain row where row: "map_of (p_graph s) i = Some row" by blast
  from placement_inv_row[OF inv row] have d: "distinct row" by simp
  from placement_inv_budget[OF inv]
  have budget: "length (available_indices s) + placed_entries s = k"
    and sub: "set (available_indices s) \<subseteq> {..<bound}"
    by simp_all
  define avail where "avail = available_indices s"
  define l where "l = scan row avail"
  show ?thesis
  proof (cases "l + placed_entries s = k")
    case True
    with run row obtain x where
      dr: "draw_until (\<lambda>x. count_list row x = 1) bound t = Return (x, t')"
      and s': "s' = s\<lparr>p_graph := AList.update i (row @ [x]) (p_graph s)\<rparr>"
      by (auto simp: place_entry_def Let_def avail_def l_def and_then_Return_iff)
    from draw_until_Return[OF dr] d have x: "x \<notin> set row" "x < bound"
      by (simp_all add: distinct_count_list_Suc0)
    have "placement_inv rows bound k
            (s\<lparr>p_graph := AList.update i (row @ [x]) (p_graph s),
               available_indices := available_indices s, placed_entries := placed_entries s\<rparr>)"
      by (rule placement_inv_append[OF inv i row x budget sub])
    then show ?thesis using row by (simp add: s' update_conv')
  next
    case False
    with run row obtain x where
      dr: "draw_until (\<lambda>x. count_list row (avail ! x) \<noteq> 0 \<and> 1 < length avail) (length avail) t
             = Return (x, t')"
      and s': "s' = s\<lparr>p_graph := AList.update i (row @ [avail ! x]) (p_graph s),
                      available_indices := list_pop x avail,
                      placed_entries := placed_entries s + 1\<rparr>"
      by (auto simp: place_entry_def Let_def avail_def l_def and_then_Return_iff)
    from draw_until_Return[OF dr] have xl: "x < length avail"
      and acc: "count_list row (avail ! x) = 0 \<or> length avail \<le> 1" by auto
    have fresh: "avail ! x \<notin> set row"
    proof (cases "count_list row (avail ! x) = 0")
      case True
      then show ?thesis by (simp add: count_list_0_iff)
    next
      case False
      with acc xl have one: "length avail = 1" "x = 0" by auto
      from \<open>l + placed_entries s \<noteq> k\<close> budget have "l \<noteq> length avail" by (auto simp: avail_def)
      with scan_le[of row avail] one have "scan row avail = 0" by (simp add: l_def)
      with scan_stops[of row avail] one have "count_list row (avail ! 0) \<noteq> 1" by simp
      with d one show ?thesis by (simp add: distinct_count_list_Suc0)
    qed
    have "avail ! x \<in> set avail" using xl by simp
    then have inb: "avail ! x < bound" using sub by (auto simp: avail_def)
    have b1: "length (list_pop x avail) + (placed_entries s + 1) = k"
      using budget xl by (simp add: length_list_pop avail_def)
    have b2: "set (list_pop x avail) \<subseteq> {..<bound}"
      using set_list_pop[of x avail] sub by (auto simp: avail_def)
    have "placement_inv rows bound k
            (s\<lparr>p_graph := AList.update i (row @ [avail ! x]) (p_graph s),
               available_indices := list_pop x avail, placed_entries := placed_entries s + 1\<rparr>)"
      by (rule placement_inv_append[OF inv i row fresh inb b1 b2])
    then show ?thesis using row by (simp add: s' update_conv')
  qed
qed


lemma missing_index: "length row < bound \<Longrightarrow> \<exists>x<bound. x \<notin> set (row :: nat list)"
proof (rule ccontr)
  assume len: "length row < bound" and "\<not> (\<exists>x<bound. x \<notin> set row)"
  then have "{..<bound} \<subseteq> set row" by auto
  then have "card {..<bound} \<le> card (set row)" by (rule card_mono[rotated]) simp
  also have "\<dots> \<le> length row" by (rule card_length)
  finally show False using len by simp
qed

lemma place_entry_exists:
  assumes inv: "placement_inv rows bound k s"
    and row: "map_of (p_graph s) i = Some row"
    and room: "length row < bound"
  shows "\<exists>x s'. \<forall>t. place_entry bound k i s (x # t) = Return (s', t)"
proof -
  from placement_inv_row[OF inv row] have d: "distinct row" by simp
  from placement_inv_budget[OF inv]
  have budget: "length (available_indices s) + placed_entries s = k" by simp
  define avail where "avail = available_indices s"
  define l where "l = scan row avail"
  show ?thesis
  proof (cases "l + placed_entries s = k")
    case True
    from missing_index[OF room] obtain x where x: "x < bound" "x \<notin> set row" by blast
    then have dr: "draw_until (\<lambda>x. count_list row x = 1) bound (x # t) = Return (x, t)" for t
      by simp
    have "\<forall>t. place_entry bound k i s (x # t)
             = Return (s\<lparr>p_graph := AList.update i (row @ [x]) (p_graph s)\<rparr>, t)"
      using True row dr
      by (simp add: place_entry_def Let_def avail_def l_def del: draw_until.simps)
    then show ?thesis by blast
  next
    case False
    with budget scan_le[of row avail] have l: "l < length avail"
      by (auto simp: avail_def l_def)
    from scan_stops[of row avail] l have "count_list row (avail ! l) \<noteq> 1" by (simp add: l_def)
    with d have "avail ! l \<notin> set row" by (simp add: distinct_count_list_Suc0)
    then have "count_list row (avail ! l) = 0" by simp
    with l have dr:
      "draw_until (\<lambda>x. count_list row (avail ! x) \<noteq> 0 \<and> 1 < length avail) (length avail) (l # t)
         = Return (l, t)" for t
      by auto
    have "\<forall>t. place_entry bound k i s (l # t)
             = Return (s\<lparr>p_graph := AList.update i (row @ [avail ! l]) (p_graph s),
                        available_indices := list_pop l avail,
                        placed_entries := placed_entries s + 1\<rparr>, t)"
      using False row dr[unfolded avail_def]
      by (simp add: place_entry_def Let_def avail_def l_def del: draw_until.simps)
    then show ?thesis by blast
  qed
qed

lemma row_progress_step:
  assumes "row_progress rows bound k i s len j u" and "i < rows"
    and "place_entry bound k i u t = Return (u', t')"
  shows "row_progress rows bound k i s len (Suc j) u'"
proof -
  from assms(1) have inv: "placement_inv rows bound k u"
    and others: "\<forall>i'. i' \<noteq> i \<longrightarrow> map_of (p_graph u) i' = map_of (p_graph s) i'"
    by (simp_all add: row_progress_def)
  from assms(1) obtain row where row: "map_of (p_graph u) i = Some row" "length row = len + j"
    unfolding row_progress_def by blast
  from place_entry_step[OF inv assms(2) assms(3)] row others show ?thesis
    unfolding row_progress_def by auto
qed

lemma fill_row_correct:
  assumes inv: "placement_inv rows bound k s" and i: "i < rows"
    and row: "map_of (p_graph s) i = Some row"
    and run: "for_each (\<lambda>j. place_entry bound k i) js s t = Return (s', t')"
  shows "row_progress rows bound k i s (length row) (length js) s'"
proof (rule for_each_rule[OF run, where P = "row_progress rows bound k i s (length row)"])
  show "row_progress rows bound k i s (length row) 0 s"
    using inv row by (simp add: row_progress_def)
next
  fix j u t1 u' t2
  assume "row_progress rows bound k i s (length row) j u"
    and "place_entry bound k i u t1 = Return (u', t2)"
  then show "row_progress rows bound k i s (length row) (Suc j) u'"
    using row_progress_step i by blast
qed

lemma fill_row_exists:
  assumes inv: "placement_inv rows bound k s" and i: "i < rows"
    and row: "map_of (p_graph s) i = Some row"
    and room: "length row + length js \<le> bound"
  shows "\<exists>w s'. (\<forall>t. for_each (\<lambda>j. place_entry bound k i) js s (w @ t) = Return (s', t)) \<and>
           row_progress rows bound k i s (length row) (length js) s'"
proof (rule for_each_exists[where P = "row_progress rows bound k i s (length row)"])
  show "row_progress rows bound k i s (length row) 0 s"
    using inv row by (simp add: row_progress_def)
next
  fix j u
  assume j: "j < length js" and p: "row_progress rows bound k i s (length row) j u"
  from p have invu: "placement_inv rows bound k u" by (simp add: row_progress_def)
  from p obtain r' where r': "map_of (p_graph u) i = Some r'" "length r' = length row + j"
    unfolding row_progress_def by blast
  with j room have "length r' < bound" by simp
  from place_entry_exists[OF invu r'(1) this] obtain x u' where
    step: "\<forall>t. place_entry bound k i u (x # t) = Return (u', t)" by blast
  then have "place_entry bound k i u (x # []) = Return (u', [])" by blast
  from row_progress_step[OF p i this] have "row_progress rows bound k i s (length row) (Suc j) u'" .
  with step show "\<exists>w u'. (\<forall>t. place_entry bound k i u (w @ t) = Return (u', t)) \<and>
      row_progress rows bound k i s (length row) (Suc j) u'"
    by (intro exI[of _ "[x]"] exI[of _ u']) simp
qed


lemma rows_filled_step:
  assumes f: "rows_filled rows per_row bound k i u" and i: "i < rows"
    and p: "row_progress rows bound k i u 0 per_row u'"
  shows "rows_filled rows per_row bound k (Suc i) u'"
proof -
  from p have inv: "placement_inv rows bound k u'"
    and others: "\<forall>i'. i' \<noteq> i \<longrightarrow> map_of (p_graph u') i' = map_of (p_graph u) i'"
    by (simp_all add: row_progress_def)
  from p obtain row where row: "map_of (p_graph u') i = Some row" "length row = per_row"
    unfolding row_progress_def by auto
  have done_rows: "\<exists>row. map_of (p_graph u') i' = Some row \<and> length row = per_row"
    if "i' < Suc i" for i'
  proof (cases "i' = i")
    case True
    with row show ?thesis by simp
  next
    case False
    with that have "i' < i" by simp
    with f have "\<exists>row. map_of (p_graph u) i' = Some row \<and> length row = per_row"
      by (simp add: rows_filled_def)
    with others False show ?thesis by simp
  qed
  have todo: "map_of (p_graph u') i' = Some []" if "Suc i \<le> i' \<and> i' < rows" for i'
  proof -
    from that have "i' \<noteq> i" "i \<le> i' \<and> i' < rows" by simp_all
    with f others show ?thesis by (simp add: rows_filled_def)
  qed
  show ?thesis unfolding rows_filled_def using inv done_rows todo by blast
qed

lemma empty_rows_keys: "map fst (empty_rows h) = [0..<h]"
  by (simp add: empty_rows_def comp_def)

lemma empty_rows_lookup: "map_of (empty_rows h) i = (if i < h then Some [] else None)"
proof -
  have "map_of (map (\<lambda>i. (i, [])) xs) i = (if i \<in> set xs then Some ([]::nat list) else None)"
    for xs :: "nat list"
    by (induction xs) auto
  from this[of "[0..<h]"] show ?thesis by (simp add: empty_rows_def)
qed

lemma initial_placement:
  assumes "0 < bound \<or> k = 0"
  shows "rows_filled rows per_row bound k 0
           \<lparr>p_graph = empty_rows rows,
            available_indices = map (\<lambda>i. i mod bound) (rev [0..<k]),
            placed_entries = 0\<rparr>"
proof -
  have "set (map (\<lambda>i. i mod bound) (rev [0..<k])) \<subseteq> {..<bound}"
    using assms by auto
  then show ?thesis
    by (simp add: rows_filled_def placement_inv_def empty_rows_keys empty_rows_lookup)
qed

lemma place_all_filled:
  assumes run: "place_all rows per_row bound k t = Return (s, t')" and ok: "0 < bound \<or> k = 0"
  shows "rows_filled rows per_row bound k rows s"
proof -
  have "rows_filled rows per_row bound k (length [0..<rows]) s"
  proof (rule for_each_rule[OF run[unfolded place_all_def],
        where P = "rows_filled rows per_row bound k"])
    show "rows_filled rows per_row bound k 0
            \<lparr>p_graph = empty_rows rows,
             available_indices = map (\<lambda>i. i mod bound) (rev [0..<k]),
             placed_entries = 0\<rparr>"
      by (rule initial_placement[OF ok])
  next
    fix j u t1 u' t2
    assume j: "j < length [0..<rows]" and f: "rows_filled rows per_row bound k j u"
      and body: "for_each (\<lambda>ja. place_entry bound k ([0..<rows] ! j)) [0..<per_row] u t1
                   = Return (u', t2)"
    from j have jr: "j < rows" "[0..<rows] ! j = j" by simp_all
    from f jr have inv: "placement_inv rows bound k u" and row: "map_of (p_graph u) j = Some []"
      by (simp_all add: rows_filled_def)
    from fill_row_correct[OF inv jr(1) row body[unfolded jr(2)]]
    have "row_progress rows bound k j u 0 per_row u'" by simp
    from rows_filled_step[OF f jr(1) this]
    show "rows_filled rows per_row bound k (Suc j) u'" .
  qed
  then show ?thesis by simp
qed

lemma place_all_correct:
  assumes run: "place_all rows per_row bound k t = Return (s, t')" and ok: "0 < bound \<or> k = 0"
  shows "map fst (p_graph s) = [0..<rows]"
    and "map_of (p_graph s) i = Some row \<Longrightarrow>
           i < rows \<and> length row = per_row \<and> distinct row \<and> set row \<subseteq> {..<bound}"
proof -
  from place_all_filled[OF run ok] have f: "rows_filled rows per_row bound k rows s" .
  then have inv: "placement_inv rows bound k s" by (simp add: rows_filled_def)
  show keys: "map fst (p_graph s) = [0..<rows]" by (rule placement_inv_keys[OF inv])
  assume row: "map_of (p_graph s) i = Some row"
  then have "i \<in> fst ` set (p_graph s)" by (metis domI dom_map_of_conv_image_fst)
  then have i: "i < rows" using keys by (metis atLeastLessThan_iff list.set_map set_upt)
  with f row have "length row = per_row" by (auto simp: rows_filled_def)
  with i placement_inv_row[OF inv row]
  show "i < rows \<and> length row = per_row \<and> distinct row \<and> set row \<subseteq> {..<bound}" by simp
qed

lemma place_all_exists:
  assumes ok: "0 < bound \<or> k = 0" and fits: "rows = 0 \<or> per_row \<le> bound"
  shows "\<exists>w s. \<forall>t. place_all rows per_row bound k (w @ t) = Return (s, t)"
proof -
  have "\<exists>w s'. (\<forall>t. for_each (\<lambda>i. for_each (\<lambda>j. place_entry bound k i) [0..<per_row]) [0..<rows]
            \<lparr>p_graph = empty_rows rows,
             available_indices = map (\<lambda>i. i mod bound) (rev [0..<k]),
             placed_entries = 0\<rparr> (w @ t) = Return (s', t)) \<and>
          rows_filled rows per_row bound k (length [0..<rows]) s'"
  proof (rule for_each_exists[where P = "rows_filled rows per_row bound k"])
    show "rows_filled rows per_row bound k 0
            \<lparr>p_graph = empty_rows rows,
             available_indices = map (\<lambda>i. i mod bound) (rev [0..<k]),
             placed_entries = 0\<rparr>"
      by (rule initial_placement[OF ok])
  next
    fix j u
    assume j: "j < length [0..<rows]" and f: "rows_filled rows per_row bound k j u"
    from j have jr: "j < rows" "[0..<rows] ! j = j" by simp_all
    from f jr have inv: "placement_inv rows bound k u" and row: "map_of (p_graph u) j = Some []"
      by (simp_all add: rows_filled_def)
    from fits jr(1) have room: "length ([]::nat list) + length [0..<per_row] \<le> bound" by simp
    from fill_row_exists[OF inv jr(1) row room] obtain w u' where
      run: "\<forall>t. for_each (\<lambda>ja. place_entry bound k j) [0..<per_row] u (w @ t) = Return (u', t)"
      and p: "row_progress rows bound k j u 0 per_row u'"
      by auto
    from rows_filled_step[OF f jr(1) p] run
    show "\<exists>w u'. (\<forall>t. for_each (\<lambda>ja. place_entry bound k ([0..<rows] ! j)) [0..<per_row] u (w @ t)
                       = Return (u', t)) \<and>
            rows_filled rows per_row bound k (Suc j) u'"
      unfolding jr(2) by blast
  qed
  then show ?thesis unfolding place_all_def by blast
qed

section \<open>Unknown construction names\<close>

text \<open>
  C8. A construction-method name that is none of the recognised names makes the regular
  dispatcher \<open>get_parity_check_graph\<close> and the protograph submatrix dispatcher \<open>submatrix\<close>
  raise the error "Invalid construction method" (InvalidConstruction): no graph is returned,
  whatever the other arguments and the random draws are.
\<close>

theorem unknown_construction_fails:
  "(regular_name \<notin> {''gallager'', ''populate-rows'', ''populate-columns''} \<longrightarrow>
      get_parity_check_graph n r c regular_name t = Raise InvalidConstruction) \<and>
   (submatrix_name \<notin> {''permutation'', ''regular'', ''quasi-cyclic'', ''permuted-quasi-cyclic''} \<longrightarrow>
      submatrix submatrix_name factor k t = Raise InvalidConstruction)"
  by (simp add: get_parity_check_graph_def submatrix_def)

theorem unknown_construction_fails_witness:
  "get_parity_check_graph 8 4 2 ''peg'' [] = Raise InvalidConstruction \<and>
   submatrix ''peg'' 3 2 [] = Raise InvalidConstruction"
  using unknown_construction_fails[where regular_name = "''peg''" and submatrix_name = "''peg''"
      and n = 8 and r = 4 and c = 2 and t = "[]" and factor = 3 and k = 2]
  by simp


end
